theory Spec2Isabelle
  imports Main
begin

section \<open>The binary tree of package btree, over an explicit store\<close>

text \<open>
  The Go package links its nodes by pointers and inserts by assigning to the
  \<open>Left\<close> or \<open>Right\<close> field of a node that is already in the tree. The model
  keeps that: a pointer to a node is an address, \<open>nil\<close> is \<open>None\<close>, and the
  store maps every address to the node that lives there (Go has no dangling pointers,
  so the store is total). Two nodes are the same node when their addresses are equal,
  whatever they hold. A value of type \<open>*Node\<close> is a \<open>ref option\<close>: the methods
  accept \<open>nil\<close> where the source does.
\<close>

type_synonym ref = nat

record 'p Node =
  Payload :: 'p
  Left :: "ref option"
  Right :: "ref option"

type_synonym 'p heap = "ref \<Rightarrow> 'p Node"

text \<open>
  \<open>LessFunc\<close> is given the two pointers and answers from what the nodes hold when it
  is called; for a \<open>nil\<close> pointer it is given \<open>None\<close>, and what it answers then is
  the caller's choice. A comparison that panics on \<open>nil\<close> ends the program inside the
  caller's code; the model has total comparisons only, and no theorem below rests on
  what a comparison answers for \<open>nil\<close>. \<open>WalkFunc\<close> is
  given the visited node, never \<open>nil\<close>, and may write to the store (a visitor of the
  word counter could increment the count in a payload); what it prints is not modelled
  beyond the order of its calls.
\<close>

type_synonym 'p LessFunc = "'p Node option \<Rightarrow> 'p Node option \<Rightarrow> bool"

type_synonym 'p WalkFunc = "ref \<Rightarrow> 'p heap \<Rightarrow> 'p heap"

record 'p BTree =
  Root :: "ref option"
  Less :: "'p LessFunc"

definition New :: "'p LessFunc \<Rightarrow> 'p BTree" where
  "New lessf = \<lparr>Root = None, Less = lessf\<rparr>"

text \<open>
  \<open>upsertFrom\<close>: the \<open>switch\<close> tries its cases in order. The parameter \<open>from\<close> of
  the source is called \<open>cur\<close> here; it is never \<open>nil\<close> (the root, or a child that
  was found present). The node \<open>n\<close> handed in may be \<open>nil\<close>: the source passes it to
  \<open>Less\<close>, assigns it to the absent slot and returns it like any other pointer. The
  source returns \<open>from.Left\<close> (or \<open>from.Right\<close>) right after assigning \<open>n\<close> to it,
  which is \<open>n\<close>. The recursion follows pointers of the store and need not end on a
  cyclic store, so not returning is the value \<open>None\<close>.
\<close>

partial_function (option) upsertFrom ::
  "'p BTree \<Rightarrow> ref \<Rightarrow> ref option \<Rightarrow> 'p heap \<Rightarrow> ((ref option \<times> bool) \<times> 'p heap) option"
where
  "upsertFrom b cur n h =
     (if Less b (Some (h cur)) (map_option h n) then
        (case Left (h cur) of
           None \<Rightarrow> Some ((n, True), h(cur := (h cur)\<lparr>Left := n\<rparr>))
         | Some l \<Rightarrow> upsertFrom b l n h)
      else if Less b (map_option h n) (Some (h cur)) then
        (case Right (h cur) of
           None \<Rightarrow> Some ((n, True), h(cur := (h cur)\<lparr>Right := n\<rparr>))
         | Some r \<Rightarrow> upsertFrom b r n h)
      else Some ((Some cur, False), h))"

text \<open>The public methods have the receiver \<open>b *BTree\<close>: they take the tree record and
  the store, and return both. On the empty tree \<open>Upsert\<close> assigns \<open>n\<close> to \<open>Root\<close>
  and returns \<open>(b.Root, true)\<close>, whatever \<open>n\<close> is.\<close>

type_synonym 'p state = "'p BTree \<times> 'p heap"

definition Upsert ::
  "ref option \<Rightarrow> 'p state \<Rightarrow> ((ref option \<times> bool) \<times> 'p state) option"
where
  "Upsert n s =
     (case s of (b, h) \<Rightarrow>
        (case Root b of
           None \<Rightarrow> Some ((n, True), (b\<lparr>Root := n\<rparr>, h))
         | Some r \<Rightarrow>
             (case upsertFrom b r n h of
                None \<Rightarrow> None
              | Some (res, h') \<Rightarrow> Some (res, (b, h')))))"

text \<open>
  The traversals thread the store through the visitor and log the visitor's calls: the
  first component of the pair is the list of nodes \<open>walk\<close> has been called on so far.
  \<open>n.Left\<close> is read before the visitor runs on \<open>n\<close> and \<open>n.Right\<close> after it, as in
  the source. \<open>depthFirstReverseFrom\<close> calls \<open>depthFirstInOrderFrom\<close> on both
  children, as the source does.
\<close>

partial_function (option) depthFirstInOrderFrom ::
  "ref \<Rightarrow> 'p WalkFunc \<Rightarrow> ref list \<times> 'p heap \<Rightarrow> (ref list \<times> 'p heap) option"
where
  "depthFirstInOrderFrom n walk s =
     Option.bind
       (case Left (snd s n) of
          None \<Rightarrow> Some s
        | Some l \<Rightarrow> depthFirstInOrderFrom l walk s)
       (\<lambda>s1. let s2 = (fst s1 @ [n], walk n (snd s1)) in
          (case Right (snd s2 n) of
             None \<Rightarrow> Some s2
           | Some r \<Rightarrow> depthFirstInOrderFrom r walk s2))"

definition depthFirstReverseFrom ::
  "ref \<Rightarrow> 'p WalkFunc \<Rightarrow> ref list \<times> 'p heap \<Rightarrow> (ref list \<times> 'p heap) option"
where
  "depthFirstReverseFrom n walk s =
     Option.bind
       (case Right (snd s n) of
          None \<Rightarrow> Some s
        | Some r \<Rightarrow> depthFirstInOrderFrom r walk s)
       (\<lambda>s1. let s2 = (fst s1 @ [n], walk n (snd s1)) in
          (case Left (snd s2 n) of
             None \<Rightarrow> Some s2
           | Some l \<Rightarrow> depthFirstInOrderFrom l walk s2))"

definition DepthFirstInOrder ::
  "'p WalkFunc \<Rightarrow> 'p state \<Rightarrow> (ref list \<times> 'p state) option"
where
  "DepthFirstInOrder walk s =
     (case s of (b, h) \<Rightarrow>
        (case Root b of
           None \<Rightarrow> Some ([], (b, h))
         | Some r \<Rightarrow>
             (case depthFirstInOrderFrom r walk ([], h) of
                None \<Rightarrow> None
              | Some (vs, h') \<Rightarrow> Some (vs, (b, h')))))"

definition DepthFirstReverse ::
  "'p WalkFunc \<Rightarrow> 'p state \<Rightarrow> (ref list \<times> 'p state) option"
where
  "DepthFirstReverse walk s =
     (case s of (b, h) \<Rightarrow>
        (case Root b of
           None \<Rightarrow> Some ([], (b, h))
         | Some r \<Rightarrow>
             (case depthFirstReverseFrom r walk ([], h) of
                None \<Rightarrow> None
              | Some (vs, h') \<Rightarrow> Some (vs, (b, h')))))"

section \<open>Specification-level notions\<close>

text \<open>The shape of a tree in the store: which node stands where. \<open>refs\<close> lists the
  nodes left subtree first, then the node, then the right subtree.\<close>

datatype shape = Tip | Fork shape ref shape

fun refs :: "shape \<Rightarrow> ref list" where
  "refs Tip = []"
| "refs (Fork l c r) = refs l @ c # refs r"

text \<open>\<open>is_tree h p t\<close>: following \<open>Left\<close> and \<open>Right\<close> from the pointer \<open>p\<close> in
  the store \<open>h\<close> one finds exactly the shape \<open>t\<close>. With \<open>distinct (refs t)\<close> no node
  is reached twice: the nodes reachable from \<open>p\<close> form a tree.\<close>

fun is_tree :: "'p heap \<Rightarrow> ref option \<Rightarrow> shape \<Rightarrow> bool" where
  "is_tree h p Tip = (p = None)"
| "is_tree h p (Fork l c r) =
     (p = Some c \<and> is_tree h (Left (h c)) l \<and> is_tree h (Right (h c)) r)"

text \<open>The comparison of two stored nodes, as \<open>upsertFrom\<close> calls it.\<close>

definition lessr :: "'p BTree \<Rightarrow> 'p heap \<Rightarrow> ref \<Rightarrow> ref \<Rightarrow> bool" where
  "lessr b h x y = Less b (Some (h x)) (Some (h y))"

text \<open>The branch rule in the words of the specification, on shapes: where the descent
  of a new node \<open>n\<close> ends. \<open>lt cur n\<close> true: go to the left slot of \<open>cur\<close>;
  otherwise \<open>lt n cur\<close> true: go to the right slot; neither: \<open>cur\<close> is equivalent.
  An absent slot is where \<open>n\<close> is placed.\<close>

datatype outcome = Equivalent ref | PlacedLeft ref | PlacedRight ref

fun spec_branch_rule :: "(ref \<Rightarrow> ref \<Rightarrow> bool) \<Rightarrow> ref \<Rightarrow> shape \<Rightarrow> outcome option" where
  "spec_branch_rule lt n Tip = None"
| "spec_branch_rule lt n (Fork l cur r) =
     (if lt cur n then
        (if l = Tip then Some (PlacedLeft cur) else spec_branch_rule lt n l)
      else if lt n cur then
        (if r = Tip then Some (PlacedRight cur) else spec_branch_rule lt n r)
      else Some (Equivalent cur))"

text \<open>What the specification says each outcome returns and does to the store.\<close>

fun spec_effect :: "ref \<Rightarrow> 'p heap \<Rightarrow> outcome \<Rightarrow> (ref option \<times> bool) \<times> 'p heap" where
  "spec_effect n h (Equivalent cur) = ((Some cur, False), h)"
| "spec_effect n h (PlacedLeft cur) =
     ((Some n, True), h(cur := (h cur)\<lparr>Left := Some n\<rparr>))"
| "spec_effect n h (PlacedRight cur) =
     ((Some n, True), h(cur := (h cur)\<lparr>Right := Some n\<rparr>))"

fun target :: "outcome \<Rightarrow> ref" where
  "target (Equivalent cur) = cur"
| "target (PlacedLeft cur) = cur"
| "target (PlacedRight cur) = cur"

text \<open>The shape after the descent of \<open>n\<close>.\<close>

fun ins :: "(ref \<Rightarrow> ref \<Rightarrow> bool) \<Rightarrow> ref \<Rightarrow> shape \<Rightarrow> shape" where
  "ins lt n Tip = Fork Tip n Tip"
| "ins lt n (Fork l cur r) =
     (if lt cur n then Fork (ins lt n l) cur r
      else if lt n cur then Fork l cur (ins lt n r)
      else Fork l cur r)"

text \<open>The order the code keeps: what stands in the left subtree of \<open>c\<close> has \<open>c\<close> less
  than it, what stands in the right subtree is less than \<open>c\<close>.\<close>

fun ordered :: "(ref \<Rightarrow> ref \<Rightarrow> bool) \<Rightarrow> shape \<Rightarrow> bool" where
  "ordered lt Tip = True"
| "ordered lt (Fork l c r) =
     ((\<forall>y \<in> set (refs l). lt c y) \<and> (\<forall>y \<in> set (refs r). lt y c) \<and>
      ordered lt l \<and> ordered lt r)"

definition equivalent :: "(ref \<Rightarrow> ref \<Rightarrow> bool) \<Rightarrow> ref \<Rightarrow> ref \<Rightarrow> bool" where
  "equivalent lt x y = (\<not> lt x y \<and> \<not> lt y x)"

text \<open>A node without children, and a visitor that leaves every child pointer alone.\<close>

definition childless :: "'p heap \<Rightarrow> ref \<Rightarrow> bool" where
  "childless h n = (Left (h n) = None \<and> Right (h n) = None)"

definition keeps_links :: "'p WalkFunc \<Rightarrow> bool" where
  "keeps_links walk =
     (\<forall>n h x. Left (walk n h x) = Left (h x) \<and> Right (walk n h x) = Right (h x))"

definition same_links :: "'p heap \<Rightarrow> 'p heap \<Rightarrow> bool" where
  "same_links h h' = (\<forall>x. Left (h' x) = Left (h x) \<and> Right (h' x) = Right (h x))"

text \<open>A sequence of \<open>Upsert\<close> calls, one per node of the list (each call is given a
  node, not \<open>nil\<close>).\<close>

fun upserts :: "ref list \<Rightarrow> 'p state \<Rightarrow> 'p state option" where
  "upserts [] s = Some s"
| "upserts (n # ns) s =
     (case Upsert (Some n) s of None \<Rightarrow> None | Some (res, s') \<Rightarrow> upserts ns s')"

text \<open>The ordering contract. The comparison is consistent: on two nodes its result
  depends on their payloads only, through a relation \<open>plt\<close> on payloads. A strict
  order is irreflexive and transitive; in a strict weak order, moreover, being
  equivalent (neither less than the other) is transitive.\<close>

definition reads_payloads :: "'p LessFunc \<Rightarrow> ('p \<Rightarrow> 'p \<Rightarrow> bool) \<Rightarrow> bool" where
  "reads_payloads lessf plt =
     (\<forall>x y. lessf (Some x) (Some y) = plt (Payload x) (Payload y))"

definition strict_order :: "('a \<Rightarrow> 'a \<Rightarrow> bool) \<Rightarrow> bool" where
  "strict_order plt = ((\<forall>x. \<not> plt x x) \<and> (\<forall>x y z. plt x y \<longrightarrow> plt y z \<longrightarrow> plt x z))"


text \<open>The store after the visitor has been called on the nodes of a list, in order.\<close>

definition run_walk :: "'p WalkFunc \<Rightarrow> 'p heap \<Rightarrow> ref list \<Rightarrow> 'p heap" where
  "run_walk walk h vs = foldl (\<lambda>g v. walk v g) h vs"


text \<open>The branch sides as the data model of the specification words them (smaller
  payloads in the left subtree, greater ones in the right subtree).\<close>

fun claimed_ordered :: "(ref \<Rightarrow> ref \<Rightarrow> bool) \<Rightarrow> shape \<Rightarrow> bool" where
  "claimed_ordered lt Tip = True"
| "claimed_ordered lt (Fork l c r) =
     ((\<forall>y \<in> set (refs l). lt y c) \<and> (\<forall>y \<in> set (refs r). lt c y) \<and>
      claimed_ordered lt l \<and> claimed_ordered lt r)"

definition irreflexive :: "'p LessFunc \<Rightarrow> bool" where
  "irreflexive lessf = (\<forall>x. \<not> lessf (Some x) (Some x))"


subsection \<open>The public operations as a state machine\<close>

datatype 'p call = CallUpsert "ref option" | CallInOrder "'p WalkFunc" | CallReverse "'p WalkFunc"

fun perform :: "'p call \<Rightarrow> 'p state \<Rightarrow> 'p state option" where
  "perform (CallUpsert n) s = map_option snd (Upsert n s)"
| "perform (CallInOrder walk) s = map_option snd (DepthFirstInOrder walk s)"
| "perform (CallReverse walk) s = map_option snd (DepthFirstReverse walk s)"

fun performs :: "'p call list \<Rightarrow> 'p state \<Rightarrow> 'p state option" where
  "performs [] s = Some s"
| "performs (c # cs) s = (case perform c s of None \<Rightarrow> None | Some s' \<Rightarrow> performs cs s')"

definition Empty :: "'p state \<Rightarrow> bool" where
  "Empty s = (Root (fst s) = None)"

definition Populated :: "'p state \<Rightarrow> bool" where
  "Populated s = (Root (fst s) \<noteq> None)"

subsection \<open>Concrete nodes, orderings and visitors\<close>

text \<open>\<open>leaf p\<close> is the Go literal \<open>&btree.Node{Payload: p}\<close>. \<open>numless\<close> is the numeric
  \<open>less\<close> of the branch-assignment check; given \<open>nil\<close> it answers false (it is
  never given \<open>nil\<close> below). \<open>store0\<close> holds five such nodes, with
  payloads 5, 3, 8, 4 and 3 at the addresses 0 to 4. \<open>nodeWalk\<close> is a visitor that
  only looks at the node (as the one of the word counter, which prints it).\<close>

definition leaf :: "'p \<Rightarrow> 'p Node" where
  "leaf p = \<lparr>Payload = p, Left = None, Right = None\<rparr>"

definition numless :: "int LessFunc" where
  "numless a b =
     (case (a, b) of (Some x, Some y) \<Rightarrow> Payload x < Payload y | _ \<Rightarrow> False)"

definition store0 :: "int heap" where
  "store0 = (\<lambda>_. leaf 0)(0 := leaf 5, 1 := leaf 3, 2 := leaf 8, 3 := leaf 4, 4 := leaf 3)"

definition nodeWalk :: "'p WalkFunc" where
  "nodeWalk n h = h"

text \<open>\<open>bump\<close> is a visitor that writes to the node it visits: it adds one to a
  numeric payload and leaves the child pointers alone.\<close>

definition bump :: "int WalkFunc" where
  "bump n h = h(n := (h n)\<lparr>Payload := Payload (h n) + 1\<rparr>)"

text \<open>The tree after the nodes 0, 1, 2 and 3 of \<open>store0\<close> have been upserted.\<close>

definition tree0 :: "int BTree" where
  "tree0 = \<lparr>Root = Some 0, Less = numless\<rparr>"

definition store1 :: "int heap" where
  "store1 = store0(0 := \<lparr>Payload = 5, Left = Some 2, Right = Some 1\<rparr>,
                   1 := \<lparr>Payload = 3, Left = Some 3, Right = None\<rparr>)"

definition shape1 :: shape where
  "shape1 = Fork (Fork Tip 2 Tip) 0 (Fork (Fork Tip 3 Tip) 1 Tip)"

text \<open>Two visitors that write to a child pointer of the node they visit.\<close>

definition cut_left :: "'p WalkFunc" where
  "cut_left n h = h(n := (h n)\<lparr>Left := None\<rparr>)"





text \<open>An irreflexive comparison that is not transitive: \<open>a\<close> is less than \<open>b\<close> when
  \<open>b\<close> is the successor of \<open>a\<close>. \<open>store2\<close> holds the payloads 5, 6 and 4.\<close>

definition succless :: "int LessFunc" where
  "succless a b =
     (case (a, b) of (Some x, Some y) \<Rightarrow> Payload y = Payload x + 1 | _ \<Rightarrow> False)"

definition store2 :: "int heap" where
  "store2 = (\<lambda>_. leaf 0)(0 := leaf 5, 1 := leaf 6, 2 := leaf 4)"

section \<open>The descent of \<open>upsertFrom\<close> follows the branch rule\<close>

lemma target_in_refs:
  "spec_branch_rule lt n t = Some out \<Longrightarrow> target out \<in> set (refs t)"
  by (induction t) (auto split: if_splits)

lemma spec_branch_rule_Some:
  "t \<noteq> Tip \<Longrightarrow> \<exists>out. spec_branch_rule lt n t = Some out"
  by (induction t) auto

lemma upsertFrom_refines:
  "is_tree h (Some cur) t \<Longrightarrow>
   upsertFrom b cur (Some n) h = map_option (spec_effect n h) (spec_branch_rule (lessr b h) n t)"
proof (induction t arbitrary: cur)
  case Tip
  then show ?case by simp
next
  case (Fork l c r)
  from Fork.prems have c: "cur = c" and tl: "is_tree h (Left (h c)) l"
    and tr: "is_tree h (Right (h c)) r" by simp_all
  have lt1: "lessr b h c n = Less b (Some (h c)) (Some (h n))" and lt2: "lessr b h n c = Less b (Some (h n)) (Some (h c))"
    by (simp_all add: lessr_def)
  show ?case
  proof (cases "Less b (Some (h c)) (Some (h n))")
    case True
    show ?thesis
    proof (cases "l = Tip")
      case True
      with tl have "Left (h c) = None" by simp
      with \<open>Less b (Some (h c)) (Some (h n))\<close> True c lt1 show ?thesis
        by (subst upsertFrom.simps) simp
    next
      case False
      with tl obtain lc where lp: "Left (h c) = Some lc" by (cases l) auto
      with tl have "is_tree h (Some lc) l" by simp
      from Fork.IH(1)[OF this] True False lp c lt1 show ?thesis
        by (subst upsertFrom.simps) simp
    qed
  next
    case False
    note nl = this
    show ?thesis
    proof (cases "Less b (Some (h n)) (Some (h c))")
      case True
      show ?thesis
      proof (cases "r = Tip")
        case True
        with tr have "Right (h c) = None" by simp
        with \<open>Less b (Some (h n)) (Some (h c))\<close> nl True c lt1 lt2 show ?thesis
          by (subst upsertFrom.simps) simp
      next
        case False
        with tr obtain rc where rp: "Right (h c) = Some rc" by (cases r) auto
        with tr have "is_tree h (Some rc) r" by simp
        from Fork.IH(2)[OF this] True nl False rp c lt1 lt2 show ?thesis
          by (subst upsertFrom.simps) simp
      qed
    next
      case False
      with nl c lt1 lt2 show ?thesis
        by (subst upsertFrom.simps) simp
    qed
  qed
qed

section \<open>Shapes, stores and the order of a tree\<close>

lemma is_tree_upd:
  "c \<notin> set (refs t) \<Longrightarrow> is_tree (h(c := v)) p t = is_tree h p t"
  by (induction t arbitrary: p) auto

lemma is_tree_same_links:
  "same_links h h' \<Longrightarrow> is_tree h' p t = is_tree h p t"
  by (induction t arbitrary: p) (auto simp: same_links_def)

lemma is_tree_unique:
  "is_tree h p t \<Longrightarrow> is_tree h p t' \<Longrightarrow> t = t'"
proof (induction t arbitrary: p t')
  case Tip
  then show ?case by (cases t') auto
next
  case (Fork l c r)
  then show ?case by (cases t') auto
qed

lemma refs_ins_subset: "set (refs (ins lt n t)) \<subseteq> insert n (set (refs t))"
  by (induction t) auto

lemma refs_subset_ins: "set (refs t) \<subseteq> set (refs (ins lt n t))"
  by (induction t) auto

lemma distinct_ins:
  "distinct (refs t) \<Longrightarrow> n \<notin> set (refs t) \<Longrightarrow> distinct (refs (ins lt n t))"
proof (induction t)
  case Tip
  then show ?case by simp
next
  case (Fork l c r)
  have sl: "set (refs (ins lt n l)) \<subseteq> insert n (set (refs l))"
    and sr: "set (refs (ins lt n r)) \<subseteq> insert n (set (refs r))"
    by (rule refs_ins_subset)+
  from Fork sl sr show ?case by (auto split: if_splits)
qed

lemma ordered_ins: "ordered lt t \<Longrightarrow> ordered lt (ins lt n t)"
proof (induction t)
  case Tip
  then show ?case by simp
next
  case (Fork l c r)
  have sl: "set (refs (ins lt n l)) \<subseteq> insert n (set (refs l))"
    and sr: "set (refs (ins lt n r)) \<subseteq> insert n (set (refs r))"
    by (rule refs_ins_subset)+
  from Fork sl sr show ?case by (auto split: if_splits)
qed

lemma ins_equivalent:
  "spec_branch_rule lt n t = Some (Equivalent c) \<Longrightarrow>
   ins lt n t = t \<and> c \<in> set (refs t) \<and> equivalent lt c n"
  by (induction t) (auto simp: equivalent_def split: if_splits)


lemma finds_itself:
  assumes irr: "\<forall>x. \<not> lt x x" and asym: "\<forall>x y. lt x y \<longrightarrow> \<not> lt y x"
  shows "ordered lt t \<Longrightarrow> n \<in> set (refs t) \<Longrightarrow>
         spec_branch_rule lt n t = Some (Equivalent n)"
proof (induction t)
  case Tip
  then show ?case by simp
next
  case (Fork l c r)
  show ?case
  proof (cases "lt c n")
    case True
    with irr have "n \<noteq> c" by auto
    moreover from True asym Fork.prems have "n \<notin> set (refs r)" by auto
    ultimately have nl: "n \<in> set (refs l)" using Fork.prems by auto
    then have "l \<noteq> Tip" by auto
    with True nl Fork show ?thesis by simp
  next
    case False
    note nlt = this
    show ?thesis
    proof (cases "lt n c")
      case True
      with irr have "n \<noteq> c" by auto
      moreover from nlt Fork.prems have "n \<notin> set (refs l)" by auto
      ultimately have nr: "n \<in> set (refs r)" using Fork.prems by auto
      then have "r \<noteq> Tip" by auto
      with True nlt nr Fork show ?thesis by simp
    next
      case False
      with nlt Fork.prems have "n = c" by auto
      with False nlt show ?thesis by simp
    qed
  qed
qed


lemma ins_tree:
  assumes "distinct (refs t)" "n \<notin> set (refs t)" "childless h n"
  shows "is_tree h p t \<Longrightarrow> spec_branch_rule lt n t = Some out \<Longrightarrow>
         is_tree (snd (spec_effect n h out)) p (ins lt n t)"
  using assms(1,2)
proof (induction t arbitrary: p)
  case Tip
  then show ?case by simp
next
  case (Fork l c r)
  let ?h' = "snd (spec_effect n h out)"
  from Fork.prems have p: "p = Some c" and tl: "is_tree h (Left (h c)) l"
    and tr: "is_tree h (Right (h c)) r" by simp_all
  from Fork.prems have dl: "distinct (refs l)" and dr: "distinct (refs r)"
    and cl: "c \<notin> set (refs l)" and cr: "c \<notin> set (refs r)"
    and lr: "set (refs l) \<inter> set (refs r) = {}"
    and nl: "n \<notin> set (refs l)" and nr: "n \<notin> set (refs r)" and nc: "n \<noteq> c"
    by auto
  from assms(3) have leafn: "Left (h n) = None" "Right (h n) = None"
    by (simp_all add: childless_def)
  show ?case
  proof (cases "lt c n")
    case True
    show ?thesis
    proof (cases "l = Tip")
      case True
      with \<open>lt c n\<close> Fork.prems(2) have out: "out = PlacedLeft c" by simp
      from out have he: "?h' = h(c := (h c)\<lparr>Left := Some n\<rparr>)" by simp
      from tr cr have "is_tree (h(c := (h c)\<lparr>Left := Some n\<rparr>)) (Right (h c)) r"
        by (simp add: is_tree_upd)
      with True \<open>lt c n\<close> p nc leafn show ?thesis unfolding he by (simp del: fun_upd_apply add: fun_upd_same fun_upd_other)
    next
      case False
      with True Fork.prems(2) have o: "spec_branch_rule lt n l = Some out" by simp
      then have tg: "target out \<in> set (refs l)" by (rule target_in_refs)
      with cl have tc: "target out \<noteq> c" by auto
      from tg lr have tr': "target out \<notin> set (refs r)" by auto
      have il: "is_tree ?h' (Left (h c)) (ins lt n l)"
        by (rule Fork.IH(1)[OF tl o dl nl])
      have hc: "?h' c = h c" using tc by (cases out) auto
      have "is_tree ?h' (Right (h c)) r" using tr tr'
        by (cases out) (auto simp: is_tree_upd)
      with il hc True p show ?thesis by simp
    qed
  next
    case False
    note nlt = this
    show ?thesis
    proof (cases "lt n c")
      case True
      show ?thesis
      proof (cases "r = Tip")
        case True
        with \<open>lt n c\<close> nlt Fork.prems(2) have out: "out = PlacedRight c" by simp
        from out have he: "?h' = h(c := (h c)\<lparr>Right := Some n\<rparr>)" by simp
        from tl cl have "is_tree (h(c := (h c)\<lparr>Right := Some n\<rparr>)) (Left (h c)) l"
          by (simp add: is_tree_upd)
        with True \<open>lt n c\<close> nlt p nc leafn show ?thesis unfolding he by (simp del: fun_upd_apply add: fun_upd_same fun_upd_other)
      next
        case False
        with True nlt Fork.prems(2) have o: "spec_branch_rule lt n r = Some out" by simp
        then have tg: "target out \<in> set (refs r)" by (rule target_in_refs)
        with cr have tc: "target out \<noteq> c" by auto
        from tg lr have tl': "target out \<notin> set (refs l)" by auto
        have ir: "is_tree ?h' (Right (h c)) (ins lt n r)"
          by (rule Fork.IH(2)[OF tr o dr nr])
        have hc: "?h' c = h c" using tc by (cases out) auto
        have "is_tree ?h' (Left (h c)) l" using tl tl'
          by (cases out) (auto simp: is_tree_upd)
        with ir hc True nlt p show ?thesis by simp
      qed
    next
      case False
      with nlt Fork.prems(2) have "out = Equivalent c" by simp
      with False nlt Fork.prems(1) show ?thesis by simp
    qed
  qed
qed

lemma spec_effect_frame:
  "Payload (snd (spec_effect n h out) x) = Payload (h x)"
  "x \<noteq> target out \<Longrightarrow> snd (spec_effect n h out) x = h x"
  by (cases out; simp)+

lemma ordered_descending:
  assumes tr: "\<forall>x y z. lt x y \<longrightarrow> lt y z \<longrightarrow> lt x z"
  shows "ordered lt t \<Longrightarrow> sorted_wrt (\<lambda>x y. lt y x) (refs t)"
proof (induction t)
  case Tip
  then show ?case by simp
next
  case (Fork l c r)
  then have "sorted_wrt (\<lambda>x y. lt y x) (refs l)" and "sorted_wrt (\<lambda>x y. lt y x) (refs r)"
    by simp_all
  moreover from Fork.prems have L: "\<forall>x \<in> set (refs l). lt c x"
    and R: "\<forall>y \<in> set (refs r). lt y c"
    by simp_all
  moreover from L R tr have "\<forall>x \<in> set (refs l). \<forall>y \<in> set (refs r). lt y x" by blast
  ultimately show ?case by (auto simp: sorted_wrt_append)
qed

lemma sorted_wrt_comparable:
  "sorted_wrt P xs \<Longrightarrow> x \<in> set xs \<Longrightarrow> y \<in> set xs \<Longrightarrow> x \<noteq> y \<Longrightarrow> P x y \<or> P y x"
  by (induction xs) auto

lemma ordered_no_equivalents:
  assumes tr: "\<forall>x y z. lt x y \<longrightarrow> lt y z \<longrightarrow> lt x z" and "ordered lt t"
    and "x \<in> set (refs t)" and "y \<in> set (refs t)" and "x \<noteq> y"
  shows "\<not> equivalent lt x y"
  using sorted_wrt_comparable[OF ordered_descending[OF tr assms(2)] assms(3,4,5)]
  by (auto simp: equivalent_def)

section \<open>One call of \<open>Upsert\<close>, and a sequence of calls\<close>

lemma Upsert_empty:
  "Root b = None \<Longrightarrow> Upsert n (b, h) = Some ((n, True), (b\<lparr>Root := n\<rparr>, h))"
  by (simp add: Upsert_def)

lemma Upsert_nonempty:
  assumes "is_tree h (Root b) t" and "t \<noteq> Tip"
  shows "\<exists>out. spec_branch_rule (lessr b h) n t = Some out \<and>
           Upsert (Some n) (b, h) =
             Some (fst (spec_effect n h out), (b, snd (spec_effect n h out)))"
proof -
  from assms obtain cur where r: "Root b = Some cur" by (cases t) auto
  from assms(2) obtain out where o: "spec_branch_rule (lessr b h) n t = Some out"
    using spec_branch_rule_Some by blast
  from assms(1) r have "is_tree h (Some cur) t" by simp
  then have "upsertFrom b cur (Some n) h = Some (spec_effect n h out)"
    using o by (simp add: upsertFrom_refines)
  with r o show ?thesis by (simp add: Upsert_def split: prod.split)
qed

lemma Upsert_found:
  assumes "is_tree h (Root b) t"
    and "spec_branch_rule (lessr b h) n t = Some (Equivalent c)"
  shows "Upsert (Some n) (b, h) = Some ((Some c, False), (b, h))"
proof -
  from assms(2) have "t \<noteq> Tip" by auto
  from Upsert_nonempty[OF assms(1) this, of n] assms(2) show ?thesis by auto
qed

lemma Upsert_fresh:
  assumes t: "is_tree h (Root b) t" and d: "distinct (refs t)"
    and n: "n \<notin> set (refs t)" and cl: "childless h n"
  shows "\<exists>res b' h'. Upsert (Some n) (b, h) = Some (res, (b', h')) \<and>
           is_tree h' (Root b') (ins (lessr b h) n t) \<and> Less b' = Less b \<and>
           (\<forall>x. Payload (h' x) = Payload (h x)) \<and>
           (\<forall>x. x \<notin> set (refs t) \<longrightarrow> h' x = h x)"
proof (cases "t = Tip")
  case True
  with t have "Root b = None" by simp
  then have "Upsert (Some n) (b, h) = Some ((Some n, True), (b\<lparr>Root := Some n\<rparr>, h))"
    by (rule Upsert_empty)
  moreover from cl True have "is_tree h (Root (b\<lparr>Root := Some n\<rparr>)) (ins (lessr b h) n t)"
    by (simp add: childless_def)
  ultimately show ?thesis by auto
next
  case False
  from Upsert_nonempty[OF t False, of n] obtain out
    where o: "spec_branch_rule (lessr b h) n t = Some out"
      and u: "Upsert (Some n) (b, h) = Some (fst (spec_effect n h out), (b, snd (spec_effect n h out)))"
    by blast
  let ?h' = "snd (spec_effect n h out)"
  have "is_tree ?h' (Root b) (ins (lessr b h) n t)"
    by (rule ins_tree[OF d n cl t o])
  moreover have "\<forall>x. Payload (?h' x) = Payload (h x)"
    by (simp add: spec_effect_frame)
  moreover have "\<forall>x. x \<notin> set (refs t) \<longrightarrow> ?h' x = h x"
    using target_in_refs[OF o] by (auto intro: spec_effect_frame)
  ultimately show ?thesis using u by blast
qed

lemma ins_covers:
  "\<forall>x. \<not> lt x x \<Longrightarrow> \<exists>x \<in> set (refs (ins lt n t)). equivalent lt x n"
  by (induction t) (auto simp: equivalent_def)

lemma lessr_payloads:
  assumes "reads_payloads (Less b) plt" and "Less b' = Less b"
    and "\<forall>x. Payload (h' x) = Payload (h x)"
  shows "lessr b' h' = lessr b h"
  using assms by (auto simp: lessr_def reads_payloads_def fun_eq_iff)

lemma lessr_strict:
  assumes "reads_payloads (Less b) plt" and "strict_order plt"
  shows "\<forall>x. \<not> lessr b h x x" and "\<forall>x y. lessr b h x y \<longrightarrow> \<not> lessr b h y x"
    and "\<forall>x y z. lessr b h x y \<longrightarrow> lessr b h y z \<longrightarrow> lessr b h x z"
  using assms unfolding lessr_def reads_payloads_def strict_order_def by blast+

lemma Upsert_inv:
  assumes po: "reads_payloads (Less b) plt" and so: "strict_order plt"
    and t: "is_tree h (Root b) t" and d: "distinct (refs t)"
    and ord: "ordered (lessr b h) t"
    and n: "n \<in> set (refs t) \<or> childless h n"
  shows "\<exists>res b' h'. Upsert (Some n) (b, h) = Some (res, (b', h')) \<and>
           is_tree h' (Root b') (ins (lessr b h) n t) \<and>
           distinct (refs (ins (lessr b h) n t)) \<and>
           Less b' = Less b \<and>
           (\<forall>x. Payload (h' x) = Payload (h x)) \<and>
           (\<forall>x. x \<notin> set (refs t) \<longrightarrow> h' x = h x)"
proof (cases "n \<in> set (refs t)")
  case True
  have "spec_branch_rule (lessr b h) n t = Some (Equivalent n)"
    using lessr_strict(1,2)[OF po so] ord True by (rule finds_itself)
  then have "Upsert (Some n) (b, h) = Some ((Some n, False), (b, h))"
    and "ins (lessr b h) n t = t"
    using t by (auto dest: Upsert_found ins_equivalent)
  with t d show ?thesis by auto
next
  case False
  with n have cl: "childless h n" by simp
  from Upsert_fresh[OF t d False cl] distinct_ins[OF d False]
  show ?thesis by blast
qed

lemma upserts_inv:
  assumes po: "reads_payloads lessf plt" and so: "strict_order plt"
  shows "Less b = lessf \<Longrightarrow> is_tree h (Root b) t \<Longrightarrow> distinct (refs t) \<Longrightarrow>
         ordered (lessr b h) t \<Longrightarrow>
         \<forall>n \<in> set ns. n \<in> set (refs t) \<or> childless h n \<Longrightarrow>
         \<exists>b' h' t'. upserts ns (b, h) = Some (b', h') \<and>
           is_tree h' (Root b') t' \<and> distinct (refs t') \<and> ordered (lessr b h) t' \<and>
           Less b' = lessf \<and> (\<forall>x. Payload (h' x) = Payload (h x)) \<and>
           set (refs t) \<subseteq> set (refs t') \<and> set (refs t') \<subseteq> set (refs t) \<union> set ns \<and>
           (\<forall>n \<in> set ns. \<exists>x \<in> set (refs t'). equivalent (lessr b h) x n)"
proof (induction ns arbitrary: b h t)
  case Nil
  then show ?case by auto
next
  case (Cons n ns)
  let ?lt = "lessr b h"
  let ?t1 = "ins ?lt n t"
  from Cons.prems(1) po have pob: "reads_payloads (Less b) plt" by simp
  from Cons.prems(5) have n: "n \<in> set (refs t) \<or> childless h n" by simp
  from Upsert_inv[OF pob so Cons.prems(2,3,4) n] obtain res b1 h1
    where u: "Upsert (Some n) (b, h) = Some (res, (b1, h1))"
      and t1: "is_tree h1 (Root b1) ?t1" and d1: "distinct (refs ?t1)"
      and l1: "Less b1 = Less b"
      and p1: "\<forall>x. Payload (h1 x) = Payload (h x)"
      and f1: "\<forall>x. x \<notin> set (refs t) \<longrightarrow> h1 x = h x"
    by blast
  have lt1: "lessr b1 h1 = ?lt" by (rule lessr_payloads[OF pob l1 p1])
  have o1: "ordered (lessr b1 h1) ?t1"
    unfolding lt1 using Cons.prems(4) by (rule ordered_ins)
  have sub: "set (refs t) \<subseteq> set (refs ?t1)" by (rule refs_subset_ins)
  have sup: "set (refs ?t1) \<subseteq> insert n (set (refs t))" by (rule refs_ins_subset)
  have rest: "\<forall>m \<in> set ns. m \<in> set (refs ?t1) \<or> childless h1 m"
  proof
    fix m assume m: "m \<in> set ns"
    show "m \<in> set (refs ?t1) \<or> childless h1 m"
    proof (cases "m \<in> set (refs t)")
      case True
      with sub show ?thesis by auto
    next
      case False
      with Cons.prems(5) m have "childless h m" by auto
      with False f1 show ?thesis by (simp add: childless_def)
    qed
  qed
  from l1 Cons.prems(1) have l1': "Less b1 = lessf" by simp
  from Cons.IH[OF l1' t1 d1 o1 rest] obtain b' h' t'
    where r: "upserts ns (b1, h1) = Some (b', h')"
      and t': "is_tree h' (Root b') t'" and d': "distinct (refs t')"
      and o': "ordered (lessr b1 h1) t'" and l': "Less b' = lessf"
      and p': "\<forall>x. Payload (h' x) = Payload (h1 x)"
      and sub': "set (refs ?t1) \<subseteq> set (refs t')"
      and sup': "set (refs t') \<subseteq> set (refs ?t1) \<union> set ns"
      and cov': "\<forall>m \<in> set ns. \<exists>x \<in> set (refs t'). equivalent (lessr b1 h1) x m"
    by blast
  have run: "upserts (n # ns) (b, h) = Some (b', h')" using u r by simp
  have irr: "\<forall>x. \<not> ?lt x x" by (rule lessr_strict(1)[OF pob so])
  have covn: "\<exists>x \<in> set (refs t'). equivalent ?lt x n"
    using ins_covers[where lt = "lessr b h" and n = n and t = t, OF irr] sub' by blast
  have cov: "\<forall>m \<in> set (n # ns). \<exists>x \<in> set (refs t'). equivalent ?lt x m"
    using covn cov' unfolding lt1 by simp
  have pay: "\<forall>x. Payload (h' x) = Payload (h x)" using p' p1 by simp
  have s1: "set (refs t) \<subseteq> set (refs t')" using sub sub' by blast
  have s2: "set (refs t') \<subseteq> set (refs t) \<union> set (n # ns)" using sup sup' by auto
  from run t' d' o' l' pay s1 s2 cov show ?case unfolding lt1 by blast
qed

lemma upsertFrom_not_inserted_aux:
  assumes "upsertFrom b cur n h = Some y"
  shows "\<not> snd (fst y) \<longrightarrow> snd y = h"
  using assms
  by (rule upsertFrom.raw_induct[rotated 1]) (auto split: if_splits option.splits)

lemma upsertFrom_not_inserted:
  "upsertFrom b cur n h = Some ((r, False), h') \<Longrightarrow> h' = h"
  by (drule upsertFrom_not_inserted_aux) simp

lemma New_tree: "is_tree h (Root (New lessf)) Tip" "Less (New lessf) = lessf"
  by (simp_all add: New_def)

lemma upserts_built:
  assumes po: "reads_payloads lessf plt" and so: "strict_order plt"
    and cl: "\<forall>n \<in> set ns. childless h0 n"
  shows "\<exists>b h t. upserts ns (New lessf, h0) = Some (b, h) \<and>
           is_tree h (Root b) t \<and> distinct (refs t) \<and> ordered (lessr b h) t \<and>
           Less b = lessf \<and> lessr b h = lessr (New lessf) h0 \<and>
           (\<forall>x. Payload (h x) = Payload (h0 x)) \<and>
           set (refs t) \<subseteq> set ns \<and>
           (\<forall>n \<in> set ns. \<exists>x \<in> set (refs t). equivalent (lessr b h) x n)"
proof -
  let ?b0 = "New lessf"
  have o0: "ordered (lessr ?b0 h0) Tip" by simp
  have d0: "distinct (refs Tip)" by simp
  from cl have c0: "\<forall>n \<in> set ns. n \<in> set (refs Tip) \<or> childless h0 n" by simp
  from upserts_inv[OF po so New_tree(2) New_tree(1) d0 o0 c0] obtain b h t
    where r: "upserts ns (?b0, h0) = Some (b, h)"
      and t: "is_tree h (Root b) t" and d: "distinct (refs t)"
      and o: "ordered (lessr ?b0 h0) t" and l: "Less b = lessf"
      and p: "\<forall>x. Payload (h x) = Payload (h0 x)"
      and s: "set (refs t) \<subseteq> set (refs Tip) \<union> set ns"
      and c: "\<forall>n \<in> set ns. \<exists>x \<in> set (refs t). equivalent (lessr ?b0 h0) x n"
    by blast
  from po have po0: "reads_payloads (Less ?b0) plt" by (simp add: New_def)
  from l have l0: "Less b = Less ?b0" by (simp add: New_def)
  have e: "lessr b h = lessr ?b0 h0" by (rule lessr_payloads[OF po0 l0 p])
  from o e have o': "ordered (lessr b h) t" by simp
  from c e have c': "\<forall>n \<in> set ns. \<exists>x \<in> set (refs t). equivalent (lessr b h) x n" by simp
  from s have s': "set (refs t) \<subseteq> set ns" by simp
  from r t d o' l e p s' c' show ?thesis by blast
qed





section \<open>The traversals\<close>

lemma same_links_refl: "same_links h h"
  by (simp add: same_links_def)

lemma same_links_trans: "same_links h g \<Longrightarrow> same_links g k \<Longrightarrow> same_links h k"
  by (simp add: same_links_def)

lemma same_links_walk: "keeps_links walk \<Longrightarrow> same_links h (walk v h)"
  by (simp add: same_links_def keeps_links_def)

lemma same_links_run_walk: "keeps_links walk \<Longrightarrow> same_links h (run_walk walk h vs)"
proof (induction vs arbitrary: h)
  case Nil
  then show ?case by (simp add: run_walk_def same_links_refl)
next
  case (Cons v vs)
  have "same_links h (walk v h)" using Cons.prems by (rule same_links_walk)
  moreover have "same_links (walk v h) (run_walk walk (walk v h) vs)"
    using Cons.prems by (rule Cons.IH)
  ultimately have "same_links h (run_walk walk (walk v h) vs)" by (rule same_links_trans)
  then show ?case by (simp add: run_walk_def)
qed

lemma run_walk_append:
  "run_walk walk h (xs @ v # ys) = run_walk walk (walk v (run_walk walk h xs)) ys"
  by (simp add: run_walk_def)

lemma inorder_traverse:
  assumes kl: "keeps_links walk"
  shows "is_tree h q t \<Longrightarrow>
         (case q of None \<Rightarrow> Some (vs, h) | Some p \<Rightarrow> depthFirstInOrderFrom p walk (vs, h)) =
           Some (vs @ refs t, run_walk walk h (refs t))"
proof (induction t arbitrary: q vs h)
  case Tip
  then show ?case by (simp add: run_walk_def)
next
  case (Fork l c r)
  from Fork.prems have q: "q = Some c" and tl: "is_tree h (Left (h c)) l"
    and tr: "is_tree h (Right (h c)) r" by simp_all
  let ?h1 = "run_walk walk h (refs l)"
  let ?h2 = "walk c ?h1"
  have left: "(case Left (h c) of None \<Rightarrow> Some (vs, h)
               | Some p \<Rightarrow> depthFirstInOrderFrom p walk (vs, h)) = Some (vs @ refs l, ?h1)"
    by (rule Fork.IH(1)[OF tl])
  have sl: "same_links h ?h2"
    using same_links_run_walk[OF kl] same_links_walk[OF kl] by (rule same_links_trans)
  then have rc: "Right (?h2 c) = Right (h c)" by (simp add: same_links_def)
  from tr sl have "is_tree ?h2 (Right (h c)) r" by (simp add: is_tree_same_links)
  from Fork.IH(2)[OF this, of "vs @ refs l @ [c]"]
  have right: "(case Right (h c) of None \<Rightarrow> Some (vs @ refs l @ [c], ?h2)
               | Some p \<Rightarrow> depthFirstInOrderFrom p walk (vs @ refs l @ [c], ?h2)) =
             Some (vs @ refs l @ c # refs r, run_walk walk ?h2 (refs r))"
    by simp
  have "depthFirstInOrderFrom c walk (vs, h) =
          Some (vs @ refs l @ c # refs r, run_walk walk ?h2 (refs r))"
    by (subst depthFirstInOrderFrom.simps) (simp add: left rc right)
  with q show ?case by (simp add: run_walk_append)
qed

lemma reverse_traverse:
  assumes kl: "keeps_links walk" and t: "is_tree h (Some c) (Fork l c r)"
  shows "depthFirstReverseFrom c walk (vs, h) =
           Some (vs @ refs r @ c # refs l, run_walk walk h (refs r @ c # refs l))"
proof -
  from t have tl: "is_tree h (Left (h c)) l" and tr: "is_tree h (Right (h c)) r"
    by simp_all
  let ?h1 = "run_walk walk h (refs r)"
  let ?h2 = "walk c ?h1"
  have right: "(case Right (h c) of None \<Rightarrow> Some (vs, h)
               | Some p \<Rightarrow> depthFirstInOrderFrom p walk (vs, h)) = Some (vs @ refs r, ?h1)"
    by (rule inorder_traverse[OF kl tr])
  have sl: "same_links h ?h2"
    using same_links_run_walk[OF kl] same_links_walk[OF kl] by (rule same_links_trans)
  then have lc: "Left (?h2 c) = Left (h c)" by (simp add: same_links_def)
  from tl sl have "is_tree ?h2 (Left (h c)) l" by (simp add: is_tree_same_links)
  from inorder_traverse[OF kl this, of "vs @ refs r @ [c]"]
  have left: "(case Left (h c) of None \<Rightarrow> Some (vs @ refs r @ [c], ?h2)
               | Some p \<Rightarrow> depthFirstInOrderFrom p walk (vs @ refs r @ [c], ?h2)) =
             Some (vs @ refs r @ c # refs l, run_walk walk ?h2 (refs l))"
    by simp
  show ?thesis
    by (simp add: depthFirstReverseFrom_def right lc left run_walk_append)
qed

lemma DepthFirstInOrder_tree:
  assumes "keeps_links walk" and "is_tree h (Root b) t"
  shows "DepthFirstInOrder walk (b, h) = Some (refs t, (b, run_walk walk h (refs t)))"
proof (cases "Root b")
  case None
  with assms(2) have "t = Tip" by (cases t) auto
  with None show ?thesis by (simp add: DepthFirstInOrder_def run_walk_def)
next
  case (Some p)
  from inorder_traverse[OF assms, of "[]"] Some show ?thesis
    by (simp add: DepthFirstInOrder_def)
qed

lemma DepthFirstReverse_tree:
  assumes "keeps_links walk" and "is_tree h (Root b) (Fork l c r)"
  shows "DepthFirstReverse walk (b, h) =
           Some (refs r @ c # refs l, (b, run_walk walk h (refs r @ c # refs l)))"
proof -
  from assms(2) have rb: "Root b = Some c" by simp
  with assms(2) have "is_tree h (Some c) (Fork l c r)" by simp
  from reverse_traverse[OF assms(1) this, of "[]"] rb show ?thesis
    by (simp add: DepthFirstReverse_def)
qed

lemma DepthFirstReverse_empty:
  "Root b = None \<Longrightarrow> DepthFirstReverse walk (b, h) = Some ([], (b, h))"
  by (simp add: DepthFirstReverse_def)

section \<open>The tree as a state machine\<close>

lemma Upsert_keeps_root:
  "Upsert n (b, h) = Some (res, (b', h')) \<Longrightarrow> Root b \<noteq> None \<Longrightarrow> b' = b"
  by (auto simp: Upsert_def split: option.splits)

lemma DepthFirstInOrder_same_tree:
  "DepthFirstInOrder walk (b, h) = Some (vs, (b', h')) \<Longrightarrow> b' = b"
  by (auto simp: DepthFirstInOrder_def split: option.splits)

lemma DepthFirstReverse_same_tree:
  "DepthFirstReverse walk (b, h) = Some (vs, (b', h')) \<Longrightarrow> b' = b"
  by (auto simp: DepthFirstReverse_def split: option.splits)

lemma perform_populated:
  "perform c s = Some s' \<Longrightarrow> Populated s \<Longrightarrow> Populated s'"
proof (cases c)
  case (CallUpsert m)
  assume "perform c s = Some s'" and "Populated s"
  moreover from this CallUpsert obtain res where "Upsert m s = Some (res, s')" by auto
  ultimately show "Populated s'"
    by (cases s; cases s') (auto simp: Populated_def dest: Upsert_keeps_root)
next
  case (CallInOrder walk)
  assume "perform c s = Some s'" and "Populated s"
  with CallInOrder show "Populated s'"
    by (cases s; cases s') (auto simp: Populated_def dest: DepthFirstInOrder_same_tree)
next
  case (CallReverse walk)
  assume "perform c s = Some s'" and "Populated s"
  with CallReverse show "Populated s'"
    by (cases s; cases s') (auto simp: Populated_def dest: DepthFirstReverse_same_tree)
qed

lemma performs_populated:
  "performs cs s = Some s' \<Longrightarrow> Populated s \<Longrightarrow> Populated s'"
proof (induction cs arbitrary: s)
  case Nil
  then show ?case by simp
next
  case (Cons c cs)
  from Cons.prems(1) obtain s1 where p: "perform c s = Some s1"
    and r: "performs cs s1 = Some s'" by (auto split: option.splits)
  from p Cons.prems(2) have "Populated s1" by (rule perform_populated)
  with r show ?case by (rule Cons.IH)
qed

lemma perform_leaves_empty:
  assumes "perform c s = Some s'" and "Empty s" and "Populated s'"
  shows "\<exists>n. c = CallUpsert (Some n) \<and> Upsert (Some n) s = Some ((Some n, True), s')"
proof (cases c)
  case (CallUpsert m)
  obtain b h where s: "s = (b, h)" by (cases s)
  with assms(2) have "Root b = None" by (simp add: Empty_def)
  then have u: "Upsert m (b, h) = Some ((m, True), (b\<lparr>Root := m\<rparr>, h))"
    by (rule Upsert_empty)
  with assms(1) CallUpsert s have s': "s' = (b\<lparr>Root := m\<rparr>, h)" by auto
  with assms(3) obtain n where "m = Some n" by (auto simp: Populated_def)
  with u s s' CallUpsert show ?thesis by auto
next
  case (CallInOrder walk)
  with assms show ?thesis
    by (cases s; cases s') (auto simp: Empty_def Populated_def dest: DepthFirstInOrder_same_tree)
next
  case (CallReverse walk)
  with assms show ?thesis
    by (cases s; cases s') (auto simp: Empty_def Populated_def dest: DepthFirstReverse_same_tree)
qed

section \<open>The example stores\<close>

lemma store1_tree: "is_tree store1 (Root tree0) shape1"
  by (simp add: store1_def store0_def shape1_def tree0_def leaf_def)

lemma shape1_refs: "refs shape1 = [2, 0, 3, 1]"
  by (simp add: shape1_def)

lemma numless_reads_payloads: "reads_payloads numless (<)"
  by (simp add: reads_payloads_def numless_def)

lemma int_strict_order: "strict_order ((<) :: int \<Rightarrow> int \<Rightarrow> bool)"
  by (auto simp: strict_order_def)


lemma nodeWalk_keeps_links: "keeps_links nodeWalk"
  by (simp add: keeps_links_def nodeWalk_def)

lemma bump_keeps_links: "keeps_links bump"
  by (simp add: keeps_links_def bump_def)

lemma run_walk_nodeWalk: "run_walk nodeWalk h vs = h"
  by (induction vs) (simp_all add: run_walk_def nodeWalk_def)

lemma store1_run5:
  "upserts [0, 1, 2, 3, 4] (New numless, store0) = Some (tree0, store1)"
  by (simp add: Upsert_def New_def upsertFrom.simps store0_def store1_def leaf_def
        numless_def tree0_def)

lemma store0_childless:
  "childless store0 0" "childless store0 1" "childless store0 2" "childless store0 3"
  "childless store0 4"
  by (simp_all add: childless_def store0_def leaf_def)

lemma run_walk_bump_store1:
  "Payload (run_walk bump store1 [3, 1, 0, 2] 2) = 9"
  "Payload (run_walk bump store1 [2, 0, 3, 1] 2) = 9"
  by (simp_all add: run_walk_def bump_def store1_def store0_def leaf_def)

section \<open>The claims\<close>

text \<open>
  C1. On a non-empty tree, \<open>Upsert\<close> of a new node \<open>n\<close> (a node, not \<open>nil\<close>)
  descends by the branch rule of the specification, its cases read in order: where \<open>less(cur, n)\<close> holds it goes to the left slot of
  \<open>cur\<close>, otherwise where \<open>less(n, cur)\<close> holds it goes to the right slot, and where
  neither holds it stops and returns \<open>(cur, false)\<close> with the store as it was. At an
  absent slot it stores \<open>n\<close> there and returns \<open>(n, true)\<close>. The call returns, and
  the tree record is not written.
\<close>

theorem Upsert_branch_rule:
  assumes "is_tree h (Root b) t" and "t \<noteq> Tip"
  shows "\<exists>out. spec_branch_rule (lessr b h) n t = Some out \<and>
           Upsert (Some n) (b, h) =
             Some (fst (spec_effect n h out), (b, snd (spec_effect n h out)))"
proof -
  from assms obtain cur where r: "Root b = Some cur" by (cases t) auto
  from assms(2) obtain out where o: "spec_branch_rule (lessr b h) n t = Some out"
    using spec_branch_rule_Some by blast
  from assms(1) r have "is_tree h (Some cur) t" by simp
  then have "upsertFrom b cur (Some n) h = Some (spec_effect n h out)"
    using o by (simp add: upsertFrom_refines)
  with r o show ?thesis by (simp add: Upsert_def split: prod.split)
qed

text \<open>In the tree of \<open>store1\<close> (5 at the root, 8 to its left, 3 to its right, 4 to the
  left of 3), the node 4 (payload 3) ends at the equivalent node 1, and the node 5
  (payload 0) is placed in the right slot of node 1.\<close>

theorem Upsert_branch_rule_witness:
  "is_tree store1 (Root tree0) shape1 \<and> shape1 \<noteq> Tip \<and>
   spec_branch_rule (lessr tree0 store1) 4 shape1 = Some (Equivalent 1) \<and>
   Upsert (Some 4) (tree0, store1) = Some ((Some 1, False), (tree0, store1)) \<and>
   spec_branch_rule (lessr tree0 store1) 5 shape1 = Some (PlacedRight 1) \<and>
   Upsert (Some 5) (tree0, store1) =
     Some ((Some 5, True), (tree0, store1(1 := (store1 1)\<lparr>Right := Some 5\<rparr>)))"
proof -
  have t: "is_tree store1 (Root tree0) shape1" by (rule store1_tree)
  have ne: "shape1 \<noteq> Tip" by (simp add: shape1_def)
  have o4: "spec_branch_rule (lessr tree0 store1) 4 shape1 = Some (Equivalent 1)"
    by (simp add: shape1_def lessr_def tree0_def numless_def store1_def store0_def leaf_def)
  have o5: "spec_branch_rule (lessr tree0 store1) 5 shape1 = Some (PlacedRight 1)"
    by (simp add: shape1_def lessr_def tree0_def numless_def store1_def store0_def leaf_def)
  from Upsert_branch_rule[OF t ne, of 4] o4
  have "Upsert (Some 4) (tree0, store1) = Some ((Some 1, False), (tree0, store1))" by simp
  moreover from Upsert_branch_rule[OF t ne, of 5] o5
  have "Upsert (Some 5) (tree0, store1) =
     Some ((Some 5, True), (tree0, store1(1 := (store1 1)\<lparr>Right := Some 5\<rparr>)))" by simp
  ultimately show ?thesis using t ne o4 o5 by simp
qed

text \<open>
  C2, as stated: in every tree built by \<open>Upsert\<close> calls with a consistent, irreflexive
  \<open>less\<close>, the left subtree of a node holds payloads less than the node's, the right
  subtree payloads greater than it, and no two nodes hold equivalent payloads. Both
  parts fail. With the numeric \<open>less\<close> and the payloads 5, 3, 8 the left child of 5
  holds 8. With the irreflexive, not transitive \<open>succless\<close> and the payloads 5, 6, 4
  the tree holds 6 and 4, neither of which is less than the other.
\<close>

theorem upserts_order_counterexample:
  "irreflexive numless \<and> reads_payloads numless (<) \<and>
   (case upserts [0, 1, 2] (New numless, store0) of
      None \<Rightarrow> False
    | Some (b, h) \<Rightarrow>
        is_tree h (Root b) (Fork (Fork Tip 2 Tip) 0 (Fork Tip 1 Tip)) \<and>
        \<not> claimed_ordered (lessr b h) (Fork (Fork Tip 2 Tip) 0 (Fork Tip 1 Tip))) \<and>
   irreflexive succless \<and> reads_payloads succless (\<lambda>p q. q = p + 1) \<and>
   (case upserts [0, 1, 2] (New succless, store2) of
      None \<Rightarrow> False
    | Some (b, h) \<Rightarrow>
        is_tree h (Root b) (Fork (Fork Tip 1 Tip) 0 (Fork Tip 2 Tip)) \<and>
        equivalent (lessr b h) 1 2)"
  by (simp add: irreflexive_def reads_payloads_def Upsert_def New_def upsertFrom.simps
        store0_def store2_def leaf_def numless_def succless_def lessr_def equivalent_def)

text \<open>
  C2, amended: in every tree built from the empty tree by \<open>Upsert\<close> calls on nodes
  without children, with a consistent \<open>less\<close> that is irreflexive and transitive, every
  node \<open>x\<close> is less than every payload in the subtree rooted at \<open>x.Left\<close>, every
  payload in the subtree rooted at \<open>x.Right\<close> is less than \<open>x\<close>, and no two nodes
  hold equivalent payloads. Every call returns, and the nodes reachable from the root
  form a tree.
\<close>

theorem upserts_keep_order:
  assumes po: "reads_payloads lessf plt" and so: "strict_order plt"
    and cl: "\<forall>n \<in> set ns. childless h0 n"
  shows "\<exists>b h t. upserts ns (New lessf, h0) = Some (b, h) \<and>
           is_tree h (Root b) t \<and> distinct (refs t) \<and> ordered (lessr b h) t \<and>
           (\<forall>x \<in> set (refs t). \<forall>y \<in> set (refs t). x \<noteq> y \<longrightarrow> \<not> equivalent (lessr b h) x y)"
proof -
  from upserts_built[OF po so cl] obtain b h t
    where r: "upserts ns (New lessf, h0) = Some (b, h)"
      and t: "is_tree h (Root b) t" and d: "distinct (refs t)"
      and o: "ordered (lessr b h) t" and l: "Less b = lessf"
    by blast
  from po l have "reads_payloads (Less b) plt" by simp
  then have tr: "\<forall>x y z. lessr b h x y \<longrightarrow> lessr b h y z \<longrightarrow> lessr b h x z"
    using so by (rule lessr_strict(3))
  have "\<forall>x \<in> set (refs t). \<forall>y \<in> set (refs t). x \<noteq> y \<longrightarrow> \<not> equivalent (lessr b h) x y"
    using ordered_no_equivalents[OF tr o] by blast
  with r t d o show ?thesis by blast
qed

theorem upserts_keep_order_witness:
  "reads_payloads numless (<) \<and> strict_order ((<) :: int \<Rightarrow> int \<Rightarrow> bool) \<and>
   childless store0 0 \<and> childless store0 1 \<and> childless store0 2 \<and>
   childless store0 3 \<and> childless store0 4 \<and>
   upserts [0, 1, 2, 3, 4] (New numless, store0) = Some (tree0, store1) \<and>
   is_tree store1 (Root tree0) shape1 \<and> distinct (refs shape1) \<and>
   ordered (lessr tree0 store1) shape1 \<and>
   \<not> equivalent (lessr tree0 store1) 3 1"
proof -
  have cl: "\<forall>n \<in> set [0, 1, 2, 3, 4]. childless store0 n"
    using store0_childless by simp
  from upserts_keep_order[OF numless_reads_payloads int_strict_order cl] obtain b h t
    where r: "upserts [0, 1, 2, 3, 4] (New numless, store0) = Some (b, h)"
      and t: "is_tree h (Root b) t" and d: "distinct (refs t)"
      and o: "ordered (lessr b h) t"
      and e: "\<forall>x \<in> set (refs t). \<forall>y \<in> set (refs t). x \<noteq> y \<longrightarrow> \<not> equivalent (lessr b h) x y"
    by blast
  from r[unfolded store1_run5] have bh: "b = tree0" "h = store1" by simp_all
  with t have "t = shape1" using store1_tree by (auto intro: is_tree_unique)
  with d o e bh have "distinct (refs shape1)" "ordered (lessr tree0 store1) shape1"
    "\<not> equivalent (lessr tree0 store1) 3 1"
    by (simp_all add: shape1_refs)
  then show ?thesis
    using numless_reads_payloads int_strict_order store0_childless store1_run5 store1_tree
    by simp
qed

text \<open>
  C3, as stated: after the payloads 5, 3 and 8 have been upserted in that order with the
  numeric \<open>less\<close>, the root holds 5, its left child holds 3 and its right child holds 8.
  This fails: \<open>less(5, 3)\<close> is false and \<open>less(3, 5)\<close> is true, so 3 goes to the
  right slot of 5. The left child of the root is the node 2, which does not hold 3, and
  the right child is the node 1, which does not hold 8.
\<close>

theorem branch_assignment_counterexample:
  "case upserts [0, 1, 2] (New numless, store0) of
     None \<Rightarrow> False
   | Some (b, h) \<Rightarrow> Root b = Some 0 \<and> Payload (h 0) = 5 \<and>
       Left (h 0) = Some 2 \<and> Payload (h 2) \<noteq> 3 \<and>
       Right (h 0) = Some 1 \<and> Payload (h 1) \<noteq> 8"
  by (simp add: Upsert_def New_def upsertFrom.simps store0_def leaf_def numless_def)

text \<open>
  C3, amended: after the payloads 5, 3 and 8 have been upserted in that order with the
  numeric \<open>less\<close>, the root holds 5, the node holding 3 is its RIGHT child and the node
  holding 8 is its LEFT child; neither child has children.
\<close>

theorem branch_assignment:
  "case upserts [0, 1, 2] (New numless, store0) of
     None \<Rightarrow> False
   | Some (b, h) \<Rightarrow> Root b = Some 0 \<and> Payload (h 0) = 5 \<and>
       Right (h 0) = Some 1 \<and> Payload (h 1) = 3 \<and>
       Left (h 0) = Some 2 \<and> Payload (h 2) = 8 \<and>
       childless h 1 \<and> childless h 2"
  by (simp add: Upsert_def New_def upsertFrom.simps store0_def leaf_def numless_def
        childless_def)

text \<open>
  C4, as stated: on every non-empty tree the reverse traversal visits every node exactly
  once. The claim puts no condition on the visitor, which is handed a pointer it may
  write through, and \<open>depthFirstReverseFrom\<close> reads \<open>n.Left\<close> after the visitor
  has run on \<open>n\<close>. With the visitor \<open>cut_left\<close>, which sets the \<open>Left\<close> of the
  node it visits to \<open>nil\<close>, the traversal of the tree of \<open>store1\<close> visits the nodes
  3, 1 and 0 and never the node 2.
\<close>

theorem DepthFirstReverse_counterexample:
  "is_tree store1 (Root tree0) shape1 \<and> distinct (refs shape1) \<and>
   2 \<in> set (refs shape1) \<and>
   (case DepthFirstReverse cut_left (tree0, store1) of
      None \<Rightarrow> False
    | Some (vs, s') \<Rightarrow> vs = [3, 1, 0] \<and> 2 \<notin> set vs)"
  by (simp add: shape1_def DepthFirstReverse_def depthFirstReverseFrom_def
        depthFirstInOrderFrom.simps cut_left_def tree0_def store1_def store0_def leaf_def)

text \<open>
  C4, amended: on every non-empty tree, provided the visitor does not write to child
  pointers, \<open>DepthFirstReverse\<close> swaps left and right at the root only: it visits
  what the in-order step visits from the root's right child, then the root, then what
  the in-order step visits from the root's left child, so below the root the order is
  the in-order one (left subtree, node, right subtree). It returns, the visitor has been
  called on the visited nodes in that order and on nothing else, and every node of the
  tree is visited exactly once.
\<close>

theorem DepthFirstReverse_swaps_root_only:
  assumes kl: "keeps_links walk" and t: "is_tree h (Root b) (Fork l c r)"
    and d: "distinct (refs (Fork l c r))"
  shows "\<exists>vs h'. DepthFirstReverse walk (b, h) = Some (vs, (b, h')) \<and>
           vs = refs r @ c # refs l \<and> h' = run_walk walk h vs \<and>
           (case Right (h c) of None \<Rightarrow> Some ([], h)
            | Some p \<Rightarrow> depthFirstInOrderFrom p walk ([], h)) =
             Some (refs r, run_walk walk h (refs r)) \<and>
           distinct vs \<and> set vs = set (refs (Fork l c r))"
proof -
  from t have tr: "is_tree h (Right (h c)) r" by simp
  have "DepthFirstReverse walk (b, h) =
          Some (refs r @ c # refs l, (b, run_walk walk h (refs r @ c # refs l)))"
    using kl t by (rule DepthFirstReverse_tree)
  moreover from inorder_traverse[OF kl tr, of "[]"]
  have "(case Right (h c) of None \<Rightarrow> Some ([], h)
         | Some p \<Rightarrow> depthFirstInOrderFrom p walk ([], h)) =
          Some (refs r, run_walk walk h (refs r))" by simp
  moreover from d have "distinct (refs r @ c # refs l)" by auto
  moreover have "set (refs r @ c # refs l) = set (refs (Fork l c r))" by auto
  ultimately show ?thesis by blast
qed

text \<open>In the tree of \<open>store1\<close> the in-order walk visits the payloads 8, 5, 4, 3; the
  reverse walk visits 4, 3, 5, 8 (the nodes 3, 1, 0, 2), not 3, 4, 5, 8. The visitor
  \<open>bump\<close> has added one to the payload 8 of the node 2.\<close>

theorem DepthFirstReverse_swaps_root_only_witness:
  "keeps_links bump \<and>
   is_tree store1 (Root tree0) (Fork (Fork Tip 2 Tip) 0 (Fork (Fork Tip 3 Tip) 1 Tip)) \<and>
   distinct (refs (Fork (Fork Tip 2 Tip) 0 (Fork (Fork Tip 3 Tip) 1 Tip))) \<and>
   DepthFirstReverse bump (tree0, store1) =
     Some ([3, 1, 0, 2], (tree0, run_walk bump store1 [3, 1, 0, 2])) \<and>
   Payload (run_walk bump store1 [3, 1, 0, 2] 2) = 9 \<and>
   map (\<lambda>v. Payload (store1 v)) [3, 1, 0, 2] = [4, 3, 5, 8]"
proof -
  have t: "is_tree store1 (Root tree0) (Fork (Fork Tip 2 Tip) 0 (Fork (Fork Tip 3 Tip) 1 Tip))"
    using store1_tree by (simp add: shape1_def)
  have d: "distinct (refs (Fork (Fork Tip 2 Tip) 0 (Fork (Fork Tip 3 Tip) 1 Tip)))"
    by simp
  from DepthFirstReverse_swaps_root_only[OF bump_keeps_links t d]
  have "DepthFirstReverse bump (tree0, store1) =
     Some ([3, 1, 0, 2], (tree0, run_walk bump store1 [3, 1, 0, 2]))"
    by auto
  moreover have "map (\<lambda>v. Payload (store1 v)) [3, 1, 0, 2] = [4, 3, 5, 8]"
    by (simp add: store1_def store0_def leaf_def)
  ultimately show ?thesis using bump_keeps_links t d run_walk_bump_store1(1) by blast
qed










text \<open>
  C8. When \<open>Upsert\<close> returns \<open>inserted = false\<close>, nothing has been written: the tree
  record (its root) and the whole store (the payload and both child pointers of every
  node) are as before the call. This holds for every store, tree-shaped or not, and
  for every pointer handed in, \<open>nil\<close> included.
\<close>

theorem Upsert_not_inserted_unchanged:
  "Upsert n (b, h) = Some ((r, False), (b', h')) \<Longrightarrow> b' = b \<and> h' = h"
  by (auto simp: Upsert_def split: option.splits dest: upsertFrom_not_inserted)

theorem Upsert_not_inserted_unchanged_witness:
  "Upsert (Some 4) (tree0, store1) = Some ((Some 1, False), (tree0, store1))"
proof -
  have "\<exists>b' h'. Upsert (Some 4) (tree0, store1) = Some ((Some 1, False), (b', h'))"
    by (simp add: Upsert_def upsertFrom.simps store0_def store1_def leaf_def
        numless_def tree0_def)
  then obtain b' h' where u: "Upsert (Some 4) (tree0, store1) = Some ((Some 1, False), (b', h'))"
    by blast
  from Upsert_not_inserted_unchanged[OF u] u show ?thesis by simp
qed

text \<open>
  C9, as stated: the only transition from Empty to Populated is the first successful
  \<open>Upsert\<close>. \<open>Upsert\<close> accepts \<open>nil\<close>: on an Empty tree it assigns \<open>nil\<close> to the
  root and returns \<open>(nil, true)\<close>, so a first successful \<open>Upsert\<close> can leave the tree
  Empty.
\<close>

theorem tree_state_machine_counterexample:
  "Empty (New numless, store0) \<and>
   Upsert None (New numless, store0) = Some ((None, True), (New numless, store0)) \<and>
   perform (CallUpsert None) (New numless, store0) = Some (New numless, store0) \<and>
   \<not> Populated (New numless, store0)"
  by (simp add: Empty_def Populated_def Upsert_def New_def)

text \<open>
  C9, amended: the tree is either Empty (no root) or Populated (a root), never both. A
  call of a public operation that takes an Empty tree to a Populated one is a call of
  \<open>Upsert\<close> on a node (not \<open>nil\<close>) that returned \<open>inserted = true\<close>, and every
  \<open>Upsert\<close> of a node on an Empty tree is such a call, so the transition is made by
  the first \<open>Upsert\<close> of a node. No sequence of calls of \<open>Upsert\<close> (of a node or of
  \<open>nil\<close>), \<open>DepthFirstInOrder\<close> and \<open>DepthFirstReverse\<close> takes a Populated tree to
  an Empty one.
\<close>

theorem tree_state_machine:
  "(Populated s \<longleftrightarrow> \<not> Empty s) \<and>
   (\<forall>c s'. Empty s \<and> perform c s = Some s' \<and> Populated s' \<longrightarrow>
      (\<exists>n. c = CallUpsert (Some n) \<and> Upsert (Some n) s = Some ((Some n, True), s'))) \<and>
   (\<forall>n. Empty s \<longrightarrow> (\<exists>s'. Upsert (Some n) s = Some ((Some n, True), s') \<and> Populated s')) \<and>
   (\<forall>cs s'. Populated s \<and> performs cs s = Some s' \<longrightarrow> Populated s')"
proof (intro conjI allI impI)
  show "Populated s \<longleftrightarrow> \<not> Empty s" by (simp add: Populated_def Empty_def)
next
  fix c s' assume "Empty s \<and> perform c s = Some s' \<and> Populated s'"
  then show "\<exists>n. c = CallUpsert (Some n) \<and> Upsert (Some n) s = Some ((Some n, True), s')"
    using perform_leaves_empty by blast
next
  fix n assume e: "Empty s"
  obtain b h where s: "s = (b, h)" by (cases s)
  with e have "Root b = None" by (simp add: Empty_def)
  then have "Upsert (Some n) (b, h) = Some ((Some n, True), (b\<lparr>Root := Some n\<rparr>, h))"
    by (rule Upsert_empty)
  with s show "\<exists>s'. Upsert (Some n) s = Some ((Some n, True), s') \<and> Populated s'"
    by (simp add: Populated_def)
next
  fix cs s' assume "Populated s \<and> performs cs s = Some s'"
  then show "Populated s'" using performs_populated by blast
qed

theorem tree_state_machine_witness:
  "Empty (New numless, store0) \<and>
   perform (CallUpsert (Some 0)) (New numless, store0) = Some (tree0, store0) \<and>
   Populated (tree0, store0) \<and>
   Upsert (Some 0) (New numless, store0) = Some ((Some 0, True), (tree0, store0)) \<and>
   (case performs [CallUpsert (Some 1), CallInOrder bump, CallUpsert (Some 4),
                   CallReverse nodeWalk] (tree0, store0) of
      None \<Rightarrow> False
    | Some s2 \<Rightarrow> Populated s2)"
proof -
  let ?s0 = "(New numless, store0)"
  let ?s1 = "(tree0, store0)"
  let ?cs = "[CallUpsert (Some 1), CallInOrder bump, CallUpsert (Some 4),
              CallReverse nodeWalk]"
  have e: "Empty ?s0" by (simp add: Empty_def New_def)
  have p: "perform (CallUpsert (Some 0)) ?s0 = Some ?s1"
    by (simp add: Upsert_def New_def tree0_def)
  have q: "Populated ?s1" by (simp add: Populated_def tree0_def)
  from tree_state_machine[of ?s0] e p q
  have u: "Upsert (Some 0) ?s0 = Some ((Some 0, True), ?s1)" by blast
  have "\<exists>s2. performs ?cs ?s1 = Some s2"
    by (simp add: Upsert_def upsertFrom.simps DepthFirstInOrder_def DepthFirstReverse_def
        depthFirstReverseFrom_def depthFirstInOrderFrom.simps
        tree0_def store0_def leaf_def numless_def bump_def nodeWalk_def)
  then obtain s2 where r: "performs ?cs ?s1 = Some s2" by blast
  from tree_state_machine[of ?s1] q r have "Populated s2" by blast
  with e p q u r show ?thesis by simp
qed

text \<open>
  C10. Both traversals are read-only on the structure of the tree. With a visitor that
  does not write to child pointers, each traversal of a tree returns, returns the tree
  record as it was given (the same root), and the store it returns is the store after
  the visitor's calls alone, in which every node has the \<open>Left\<close> and \<open>Right\<close> it had
  before.
\<close>

theorem traversals_read_only:
  assumes kl: "keeps_links walk" and t: "is_tree h (Root b) t"
  shows "(\<exists>vs h'. DepthFirstInOrder walk (b, h) = Some (vs, (b, h')) \<and>
            h' = run_walk walk h vs \<and> same_links h h') \<and>
         (\<exists>vs h'. DepthFirstReverse walk (b, h) = Some (vs, (b, h')) \<and>
            h' = run_walk walk h vs \<and> same_links h h')"
proof
  show "\<exists>vs h'. DepthFirstInOrder walk (b, h) = Some (vs, (b, h')) \<and>
            h' = run_walk walk h vs \<and> same_links h h'"
    using DepthFirstInOrder_tree[OF kl t] same_links_run_walk[OF kl] by blast
  show "\<exists>vs h'. DepthFirstReverse walk (b, h) = Some (vs, (b, h')) \<and>
            h' = run_walk walk h vs \<and> same_links h h'"
  proof (cases t)
    case Tip
    with t have "Root b = None" by simp
    then have "DepthFirstReverse walk (b, h) = Some ([], (b, h))"
      by (rule DepthFirstReverse_empty)
    then show ?thesis by (simp add: run_walk_def same_links_refl)
  next
    case (Fork l c r)
    with t have "is_tree h (Root b) (Fork l c r)" by simp
    from DepthFirstReverse_tree[OF kl this] same_links_run_walk[OF kl]
    show ?thesis by blast
  qed
qed

text \<open>The visitor \<open>bump\<close> adds one to each payload it visits; the child pointers of
  the root are as before.\<close>

theorem traversals_read_only_witness:
  "keeps_links bump \<and> is_tree store1 (Root tree0) shape1 \<and>
   (case DepthFirstInOrder bump (tree0, store1) of
      None \<Rightarrow> False
    | Some (vs, (b, h')) \<Rightarrow> vs = [2, 0, 3, 1] \<and> b = tree0 \<and> same_links store1 h' \<and>
        Payload (h' 0) = 6 \<and> Left (h' 0) = Some 2 \<and> Right (h' 0) = Some 1) \<and>
   (case DepthFirstReverse bump (tree0, store1) of
      None \<Rightarrow> False
    | Some (vs, (b, h')) \<Rightarrow> vs = [3, 1, 0, 2] \<and> b = tree0 \<and> same_links store1 h' \<and>
        Payload (h' 0) = 6 \<and> Left (h' 0) = Some 2 \<and> Right (h' 0) = Some 1)"
proof -
  have t1: "is_tree store1 (Root tree0) (Fork (Fork Tip 2 Tip) 0 (Fork (Fork Tip 3 Tip) 1 Tip))"
    using store1_tree by (simp add: shape1_def)
  from traversals_read_only[OF bump_keeps_links store1_tree] obtain vs h' ws g'
    where v: "DepthFirstInOrder bump (tree0, store1) = Some (vs, (tree0, h'))"
      "h' = run_walk bump store1 vs" "same_links store1 h'"
      and w: "DepthFirstReverse bump (tree0, store1) = Some (ws, (tree0, g'))"
      "g' = run_walk bump store1 ws" "same_links store1 g'"
    by blast
  from v(1) DepthFirstInOrder_tree[OF bump_keeps_links store1_tree]
  have vs: "vs = [2, 0, 3, 1]" by (simp add: shape1_refs)
  from w(1) DepthFirstReverse_tree[OF bump_keeps_links t1]
  have ws: "ws = [3, 1, 0, 2]" by simp
  have "Payload (h' 0) = 6 \<and> Left (h' 0) = Some 2 \<and> Right (h' 0) = Some 1"
    unfolding v(2) vs
    by (simp add: run_walk_def bump_def store1_def store0_def leaf_def)
  moreover have "Payload (g' 0) = 6 \<and> Left (g' 0) = Some 2 \<and> Right (g' 0) = Some 1"
    unfolding w(2) ws
    by (simp add: run_walk_def bump_def store1_def store0_def leaf_def)
  ultimately show ?thesis
    using v(1,3) w(1,3) vs ws bump_keeps_links store1_tree by simp
qed

end
